theory Spec2Isabelle
  imports Complex_Main "HOL-Library.Sublist"
begin

section \<open>The delayed batch processor \<open>processWithDelay\<close>\<close>

text \<open>
  The function under study is \<^verbatim>\<open>processWithDelay\<close> (the logic test of the repository):
  an \<^verbatim>\<open>async\<close> TypeScript function that validates its argument, then walks the array,
  waiting \<^verbatim>\<open>delayTime\<close> milliseconds before each element, logging the element and
  reporting progress, and giving up when its \<^verbatim>\<open>AbortSignal\<close> is aborted.

  The embedding passes the ambient state (virtual clock, timers, the console and the
  callback calls, the state of the abort signal) explicitly as a \<open>world\<close>; the rejected
  promise is the \<open>Inl\<close> of a sum, its resolution the \<open>Inr\<close>.
\<close>

subsection \<open>Values\<close>

text \<open>
  The argument is typed \<^verbatim>\<open>number[]\<close>, but the function checks it at run time (its own
  tests pass a string and a mixed array), so the argument is an arbitrary JavaScript
  value. A number is an IEEE double: a finite value, or one of the three special values.
  An array is the list of its slots, from index 0 to its length: \<open>Some v\<close> for an
  element \<open>v\<close>, \<open>None\<close> for a hole, as in \<^verbatim>\<open>[1, , 3]\<close> or \<^verbatim>\<open>new Array(3)\<close>. Objects
  other than arrays carry no content, since the function only asks for their type.
\<close>

datatype jsnum = Finite real | NaN | PosInfinity | NegInfinity

datatype jsval =
    JUndefined
  | JNull
  | JBoolean bool
  | JNumber jsnum
  | JBigInt int
  | JString string
  | JFunction
  | JObject
  | JArray (elements: "jsval option list")

text \<open>\<^verbatim>\<open>Array.isArray\<close> and the \<^verbatim>\<open>typeof\<close> operator.\<close>

fun isArray :: "jsval \<Rightarrow> bool" where
  "isArray (JArray xs) = True"
| "isArray v = False"

fun typeof :: "jsval \<Rightarrow> string" where
  "typeof JUndefined = ''undefined''"
| "typeof JNull = ''object''"
| "typeof (JBoolean b) = ''boolean''"
| "typeof (JNumber n) = ''number''"
| "typeof (JBigInt n) = ''bigint''"
| "typeof (JString s) = ''string''"
| "typeof JFunction = ''function''"
| "typeof JObject = ''object''"
| "typeof (JArray xs) = ''object''"

text \<open>
  The two ways the function reads its array. \<^verbatim>\<open>numbers.some(f)\<close> calls \<open>f\<close> on the
  elements that are there and passes over the holes. \<^verbatim>\<open>numbers[i]\<close> reads a hole, or an
  index past the end, as \<^verbatim>\<open>undefined\<close>. \<^verbatim>\<open>numbers.length\<close> counts the holes, and is the
  length of the list of slots.
\<close>

definition some :: "(jsval \<Rightarrow> bool) \<Rightarrow> jsval option list \<Rightarrow> bool" where
  "some f xs = list_ex (\<lambda>slot. case slot of None \<Rightarrow> False | Some item \<Rightarrow> f item) xs"

fun slot_value :: "jsval option \<Rightarrow> jsval" where
  "slot_value None = JUndefined"
| "slot_value (Some v) = v"

definition element_at :: "jsval option list \<Rightarrow> nat \<Rightarrow> jsval" where
  "element_at xs i = (if i < length xs then slot_value (xs ! i) else JUndefined)"

text \<open>An array without holes, as an array literal such as \<^verbatim>\<open>[1, 2, 3]\<close> gives.\<close>

definition dense :: "jsval list \<Rightarrow> jsval" where
  "dense vs = JArray (map Some vs)"

subsection \<open>Errors\<close>

text \<open>
  The three \<^verbatim>\<open>throw new Error(...)\<close> sites of the function, under the names the
  specification gives them; \<open>message\<close> is the text each one carries in the source.
\<close>

datatype error = InvalidInputKind | InvalidElementKind | CancelledKind

fun message :: "error \<Rightarrow> string" where
  "message InvalidInputKind = ''Input must be an array of numbers''"
| "message InvalidElementKind = ''All elements in the array must be numbers''"
| "message CancelledKind = ''Operation was cancelled''"

subsection \<open>The abort signal and the options\<close>

text \<open>
  The signal belongs to the caller, who may abort it at any moment. Whether it is
  already aborted is part of the world (\<open>aborted\<close>, below). What the owner will do while
  the function runs is the signal's \<open>abort_moment\<close>, placed relative to the program
  points of the run (item indices are those of the loop, from 0):
  \<^item> \<open>DuringWait i e\<close>: while the timer of item \<open>i\<close> is pending, \<open>e\<close> milliseconds after it
    was set (it is due after \<open>delayTime\<close>, so this is a moment of the run when
    \<open>e \<le> delayTime\<close>; at \<open>e = delayTime\<close> the abort is dispatched first);
  \<^item> \<open>AfterTimer i\<close>: after the timer of item \<open>i\<close> has fired and resolved the promise,
    before the function resumes;
  \<^item> \<open>InCallback i\<close>: from inside the \<^verbatim>\<open>onProgress\<close> call for item \<open>i\<close>.
  \<open>None\<close> is a signal that stays as it is for the whole run. So does a signal whose
  moment is not one of the run: a wait that the timer ends first (\<open>e > delayTime\<close>), an
  item the run does not reach, a callback that was not given.
\<close>

datatype abort_moment = DuringWait nat nat | AfterTimer nat | InCallback nat

type_synonym abort_signal = "abort_moment option"

text \<open>
  The options object. An omitted field is \<open>None\<close> (\<open>False\<close> for the callback); the
  default argument \<^verbatim>\<open>{}\<close> is \<open>no_options\<close>. The delay is a whole number of
  milliseconds. The callback is the caller's code: the model records each call of it.
\<close>

record options =
  delayTime :: "nat option"
  onProgress :: bool
  signal :: "abort_signal option"

definition no_options :: options where
  "no_options = \<lparr>delayTime = None, onProgress = False, signal = None\<rparr>"

subsection \<open>The world\<close>

text \<open>
  Everything the function does besides settling its promise is a call of
  \<^verbatim>\<open>setTimeout\<close>, \<^verbatim>\<open>clearTimeout\<close>, \<^verbatim>\<open>console.log\<close> or \<^verbatim>\<open>onProgress\<close>; the trace
  records these calls in order. Timers are named by the identifier \<^verbatim>\<open>setTimeout\<close>
  returns.
\<close>

datatype event =
    SetTimeout nat nat
  | ClearTimeout nat
  | Log jsval
  | Progress nat nat

record world =
  clock :: nat
  next_timer :: nat
  listeners :: "nat list"
  aborted :: bool
  trace :: "event list"

text \<open>
  \<open>listeners\<close> holds the \<^verbatim>\<open>abort\<close> listeners registered on the signal, each by the
  \<^verbatim>\<open>timeoutId\<close> its closure captured. A listener is registered with \<^verbatim>\<open>once: true\<close> and
  never removed, so those of earlier items are still there when the signal is aborted.

  Aborting the signal sets its flag and runs every listener:
  \<^verbatim>\<open>clearTimeout(timeoutId); reject(new Error('Operation was cancelled'))\<close>. The
  rejection only has an effect on the promise that is still pending; that is the
  business of \<open>await_delay\<close>.
\<close>

definition fire_abort :: "world \<Rightarrow> world" where
  "fire_abort w =
     w\<lparr>aborted := True,
       trace := trace w @ map ClearTimeout (listeners w),
       listeners := []\<rparr>"

text \<open>\<^verbatim>\<open>signal?.aborted\<close>: false when no signal was given.\<close>

definition signal_aborted :: "abort_signal option \<Rightarrow> world \<Rightarrow> bool" where
  "signal_aborted sig w = (case sig of None \<Rightarrow> False | Some s \<Rightarrow> aborted w)"

text \<open>Reading the owner's plan at the three places where it can strike.\<close>

definition abort_during_wait :: "abort_signal option \<Rightarrow> nat \<Rightarrow> nat \<Rightarrow> nat option" where
  "abort_during_wait sig i d =
     (case sig of
        Some (Some (DuringWait j e)) \<Rightarrow> if j = i \<and> e \<le> d then Some e else None
      | _ \<Rightarrow> None)"

definition abort_after_timer :: "abort_signal option \<Rightarrow> nat \<Rightarrow> bool" where
  "abort_after_timer sig i = (sig = Some (Some (AfterTimer i)))"

definition abort_in_callback :: "abort_signal option \<Rightarrow> nat \<Rightarrow> bool" where
  "abort_in_callback sig i = (sig = Some (Some (InCallback i)))"

subsection \<open>The function\<close>

text \<open>
  The awaited promise of lines 99 to 109:
  \<^verbatim>\<open>
  await new Promise<void>((resolve, reject) => {
    const timeoutId = setTimeout(() => resolve(), delayTime);
    if (signal) {
      signal.addEventListener('abort', () => {
        clearTimeout(timeoutId);
        reject(new Error('Operation was cancelled'));
      }, { once: true });
    }
  });
  \<close>
  Either the signal is aborted while the timer is pending, and the promise is rejected
  at that moment, or the timer fires after \<open>delayTime\<close> and resolves it.
\<close>

definition await_delay ::
  "nat \<Rightarrow> abort_signal option \<Rightarrow> nat \<Rightarrow> world \<Rightarrow> (error + unit) \<times> world" where
  "await_delay delay sig i w =
     (let timeoutId = next_timer w;
          w1 = w\<lparr>next_timer := Suc timeoutId,
                 trace := trace w @ [SetTimeout timeoutId delay]\<rparr>;
          w2 = (case sig of
                  None \<Rightarrow> w1
                | Some s \<Rightarrow> w1\<lparr>listeners := listeners w1 @ [timeoutId]\<rparr>)
      in case abort_during_wait sig i delay of
           Some e \<Rightarrow> (Inl CancelledKind, fire_abort (w2\<lparr>clock := clock w2 + e\<rparr>))
         | None \<Rightarrow>
             (let w3 = w2\<lparr>clock := clock w2 + delay\<rparr>
              in (Inr (), if abort_after_timer sig i then fire_abort w3 else w3)))"

text \<open>\<^verbatim>\<open>onProgress(i + 1, numbers.length)\<close>, line 121.\<close>

definition call_onProgress :: "abort_signal option \<Rightarrow> nat \<Rightarrow> nat \<Rightarrow> world \<Rightarrow> world" where
  "call_onProgress sig i len w =
     (let w1 = w\<lparr>trace := trace w @ [Progress (i + 1) len]\<rparr>
      in if abort_in_callback sig i then fire_abort w1 else w1)"

text \<open>The body of the \<^verbatim>\<open>for\<close> loop, lines 93 to 122, for the index \<open>i\<close>.\<close>

definition iteration ::
  "jsval option list \<Rightarrow> nat \<Rightarrow> bool \<Rightarrow> abort_signal option \<Rightarrow> nat \<Rightarrow> world
     \<Rightarrow> (error + unit) \<times> world"
where
  "iteration numbers delay onProg sig i w =
     (if signal_aborted sig w then (Inl CancelledKind, w)
      else
        (case await_delay delay sig i w of
           (Inl err, w1) \<Rightarrow> (Inl err, w1)
         | (Inr u, w1) \<Rightarrow>
             if signal_aborted sig w1 then (Inl CancelledKind, w1)
             else
               (let w2 = w1\<lparr>trace := trace w1 @ [Log (element_at numbers i)]\<rparr>
                in (Inr (),
                    if onProg then call_onProgress sig i (length numbers) w2 else w2))))"

text \<open>\<^verbatim>\<open>for (let i = 0; i < numbers.length; i++)\<close>, from the index \<open>i\<close> on.\<close>

function loop ::
  "jsval option list \<Rightarrow> nat \<Rightarrow> bool \<Rightarrow> abort_signal option \<Rightarrow> nat \<Rightarrow> world
     \<Rightarrow> (error + unit) \<times> world"
where
  "loop numbers delay onProg sig i w =
     (if i < length numbers then
        (case iteration numbers delay onProg sig i w of
           (Inl err, w1) \<Rightarrow> (Inl err, w1)
         | (Inr u, w1) \<Rightarrow> loop numbers delay onProg sig (i + 1) w1)
      else (Inr (), w))"
  by pat_completeness auto
termination
  by (relation "measure (\<lambda>(numbers, delay, onProg, sig, i, w). length numbers - i)") auto

declare loop.simps [simp del]

text \<open>\<^verbatim>\<open>options.delayTime ?? 1000\<close>, line 87.\<close>

definition delay_of :: "options \<Rightarrow> nat" where
  "delay_of opts = (case delayTime opts of None \<Rightarrow> 1000 | Some d \<Rightarrow> d)"

text \<open>The function itself, lines 63 to 124.\<close>

definition processWithDelay :: "jsval \<Rightarrow> options \<Rightarrow> world \<Rightarrow> (error + unit) \<times> world" where
  "processWithDelay numbers opts w =
     (if \<not> isArray numbers then (Inl InvalidInputKind, w)
      else if some (\<lambda>item. typeof item \<noteq> ''number'') (elements numbers)
        then (Inl InvalidElementKind, w)
      else if length (elements numbers) = 0 then (Inr (), w)
      else loop (elements numbers) (delay_of opts) (onProgress opts) (signal opts) 0 w)"

subsection \<open>Reading a run\<close>

text \<open>
  The outcome of a call and the world it leaves; the values logged, the progress calls
  and the delays of the timers set, in the order of the trace.
\<close>

abbreviation outcome :: "(error + unit) \<times> world \<Rightarrow> error + unit" where
  "outcome r \<equiv> fst r"

abbreviation final :: "(error + unit) \<times> world \<Rightarrow> world" where
  "final r \<equiv> snd r"

fun emissions :: "event list \<Rightarrow> jsval list" where
  "emissions [] = []"
| "emissions (Log v # evs) = v # emissions evs"
| "emissions (ev # evs) = emissions evs"

fun progress_calls :: "event list \<Rightarrow> (nat \<times> nat) list" where
  "progress_calls [] = []"
| "progress_calls (Progress p t # evs) = (p, t) # progress_calls evs"
| "progress_calls (ev # evs) = progress_calls evs"

fun suspensions :: "event list \<Rightarrow> nat list" where
  "suspensions [] = []"
| "suspensions (SetTimeout t d # evs) = d # suspensions evs"
| "suspensions (ev # evs) = suspensions evs"

text \<open>What a call added to the trace of the world it started in.\<close>

definition new_events :: "world \<Rightarrow> world \<Rightarrow> event list" where
  "new_events w w' = drop (length (trace w)) (trace w')"

text \<open>
  No cancellation: no signal is given, or the signal given is not aborted at the call
  and its owner leaves it alone.
\<close>

definition no_cancellation :: "options \<Rightarrow> world \<Rightarrow> bool" where
  "no_cancellation opts w =
     (case signal opts of None \<Rightarrow> True | Some None \<Rightarrow> \<not> aborted w | Some (Some m) \<Rightarrow> False)"

definition all_numbers :: "jsval list \<Rightarrow> bool" where
  "all_numbers xs = list_all (\<lambda>x. typeof x = ''number'') xs"

text \<open>The slots of an array that the element check of line 77 lets through.\<close>

definition passes_element_check :: "jsval option list \<Rightarrow> bool" where
  "passes_element_check xs = (\<not> some (\<lambda>item. typeof item \<noteq> ''number'') xs)"

text \<open>
  Some check of the iteration for item \<open>i\<close>, started in the world \<open>w\<close>, finds the signal
  aborted: the check before the delay, the listener during the delay, or the check
  after it.
\<close>

definition observes_cancellation :: "abort_signal option \<Rightarrow> nat \<Rightarrow> nat \<Rightarrow> world \<Rightarrow> bool" where
  "observes_cancellation sig d i w =
     (signal_aborted sig w \<or> abort_during_wait sig i d \<noteq> None \<or> abort_after_timer sig i)"

subsection \<open>Iterations that run to their end\<close>

text \<open>
  The owner of the signal does nothing during the iteration for item \<open>i\<close>; the world
  such an iteration leaves; and the world after \<open>m\<close> of them, from item \<open>i\<close> on.
\<close>

definition quiet :: "abort_signal option \<Rightarrow> nat \<Rightarrow> nat \<Rightarrow> bool" where
  "quiet sig i d =
     (abort_during_wait sig i d = None \<and> \<not> abort_after_timer sig i \<and> \<not> abort_in_callback sig i)"

definition complete_item ::
  "jsval option list \<Rightarrow> nat \<Rightarrow> bool \<Rightarrow> abort_signal option \<Rightarrow> nat \<Rightarrow> world \<Rightarrow> world" where
  "complete_item xs d p sig i w =
     w\<lparr>clock := clock w + d,
       next_timer := Suc (next_timer w),
       listeners := (case sig of None \<Rightarrow> listeners w | Some s \<Rightarrow> listeners w @ [next_timer w]),
       trace := trace w @
         SetTimeout (next_timer w) d # Log (element_at xs i) #
         (if p then [Progress (i + 1) (length xs)] else [])\<rparr>"

fun advance ::
  "jsval option list \<Rightarrow> nat \<Rightarrow> bool \<Rightarrow> abort_signal option \<Rightarrow> nat \<Rightarrow> nat \<Rightarrow> world
     \<Rightarrow> world" where
  "advance xs d p sig i 0 w = w"
| "advance xs d p sig i (Suc m) w = advance xs d p sig (Suc i) m (complete_item xs d p sig i w)"

text \<open>The array \<^verbatim>\<open>[1, 2, 3, 4, 5]\<close> of the source's tests.\<close>

definition test_numbers :: "jsval list" where
  "test_numbers =
     [JNumber (Finite 1), JNumber (Finite 2), JNumber (Finite 3), JNumber (Finite 4),
      JNumber (Finite 5)]"

text \<open>
  The options of the source's cancellation test: the default delay, a callback, and a
  signal that its owner aborts 1200 milliseconds after the call, which is 200
  milliseconds into the wait for the second item.
\<close>

definition cancelling_options :: options where
  "cancelling_options =
     \<lparr>delayTime = None, onProgress = True, signal = Some (Some (DuringWait 1 200))\<rparr>"

text \<open>A world in which nothing has happened yet, for the examples.\<close>

definition fresh_world :: world where
  "fresh_world = \<lparr>clock = 0, next_timer = 0, listeners = [], aborted = False, trace = []\<rparr>"

section \<open>Properties\<close>

subsection \<open>Reading traces\<close>

lemma typeof_number_iff: "typeof x = ''number'' \<longleftrightarrow> (\<exists>n. x = JNumber n)"
  by (cases x) simp_all

lemma some_iff: "some f xs \<longleftrightarrow> (\<exists>v. Some v \<in> set xs \<and> f v)"
  by (auto simp: some_def list_ex_iff split: option.splits)

lemma passes_element_check_dense [simp]: "passes_element_check (map Some vs) = all_numbers vs"
  by (auto simp: passes_element_check_def some_iff all_numbers_def list_all_iff)

lemma some_Nil [simp]: "\<not> some f []"
  by (simp add: some_def)

lemma slot_value_Some [simp]: "slot_value \<circ> Some = (\<lambda>v. v)"
  by (rule ext) simp

lemma element_at_dense: "i < length vs \<Longrightarrow> element_at (map Some vs) i = vs ! i"
  by (simp add: element_at_def)

lemma emissions_append: "emissions (a @ b) = emissions a @ emissions b"
  by (induction a rule: emissions.induct) simp_all

lemma progress_calls_append: "progress_calls (a @ b) = progress_calls a @ progress_calls b"
  by (induction a rule: progress_calls.induct) simp_all

lemma suspensions_append: "suspensions (a @ b) = suspensions a @ suspensions b"
  by (induction a rule: suspensions.induct) simp_all

lemma emissions_ClearTimeout: "emissions (map ClearTimeout ts) = []"
  by (induction ts) simp_all

lemma progress_calls_ClearTimeout: "progress_calls (map ClearTimeout ts) = []"
  by (induction ts) simp_all

lemma suspensions_ClearTimeout: "suspensions (map ClearTimeout ts) = []"
  by (induction ts) simp_all

lemma iteration_quiet:
  assumes "\<not> signal_aborted sig w" and "quiet sig i d"
  shows "iteration xs d p sig i w = (Inr (), complete_item xs d p sig i w)"
  using assms
  by (cases sig)
     (simp_all add: iteration_def await_delay_def call_onProgress_def quiet_def
        signal_aborted_def complete_item_def Let_def)

lemma iteration_during_wait:
  assumes "\<not> signal_aborted sig w" and "abort_during_wait sig i d = Some e"
  shows "iteration xs d p sig i w =
    (Inl CancelledKind,
     fire_abort (w\<lparr>clock := clock w + e, next_timer := Suc (next_timer w),
        listeners := listeners w @ [next_timer w],
        trace := trace w @ [SetTimeout (next_timer w) d]\<rparr>))"
  using assms
  by (cases sig)
     (simp_all add: iteration_def await_delay_def abort_during_wait_def fire_abort_def
        signal_aborted_def Let_def)

lemma iteration_after_timer:
  assumes "\<not> signal_aborted sig w" and "abort_during_wait sig i d = None"
    and "abort_after_timer sig i"
  shows "iteration xs d p sig i w =
    (Inl CancelledKind,
     fire_abort (w\<lparr>clock := clock w + d, next_timer := Suc (next_timer w),
        listeners := listeners w @ [next_timer w],
        trace := trace w @ [SetTimeout (next_timer w) d]\<rparr>))"
  using assms
  by (cases sig)
     (simp_all add: iteration_def await_delay_def abort_after_timer_def fire_abort_def
        signal_aborted_def Let_def)

lemma iteration_aborted:
  assumes "signal_aborted sig w"
  shows "iteration xs d p sig i w = (Inl CancelledKind, w)"
  using assms by (simp add: iteration_def)

lemma signal_aborted_complete_item [simp]:
  "signal_aborted sig (complete_item xs d p sig i w) = signal_aborted sig w"
  by (simp add: signal_aborted_def complete_item_def split: option.splits)

lemma loop_advance:
  assumes "\<not> signal_aborted sig w" and "\<forall>k<m. quiet sig (i + k) d" and "i + m \<le> length xs"
  shows "loop xs d p sig i w = loop xs d p sig (i + m) (advance xs d p sig i m w)"
  using assms
proof (induction m arbitrary: i w)
  case 0
  then show ?case by simp
next
  case (Suc m)
  from Suc.prems have q: "quiet sig i d" by (metis add.right_neutral zero_less_Suc)
  have lt: "i < length xs" using Suc.prems by simp
  have step: "loop xs d p sig i w = loop xs d p sig (Suc i) (complete_item xs d p sig i w)"
    using lt Suc.prems(1) q by (subst loop.simps) (simp add: iteration_quiet)
  have "\<forall>k<m. quiet sig (Suc i + k) d"
    using Suc.prems(2) by (metis Suc_less_eq add_Suc_shift)
  with Suc.IH[of "complete_item xs d p sig i w" "Suc i"] Suc.prems
  show ?case by (simp add: step)
qed

lemma advance_clock: "clock (advance xs d p sig i m w) = clock w + m * d"
  by (induction m arbitrary: i w) (simp_all add: complete_item_def)

lemma advance_next_timer: "next_timer (advance xs d p sig i m w) = next_timer w + m"
  by (induction m arbitrary: i w) (simp_all add: complete_item_def)

lemma advance_aborted: "aborted (advance xs d p sig i m w) = aborted w"
  by (induction m arbitrary: i w) (simp_all add: complete_item_def)

lemma advance_listeners_last:
  "listeners (advance xs d p (Some s) i m w) = listeners w @ map (\<lambda>k. next_timer w + k) [0..<m]"
proof (induction m arbitrary: i w)
  case 0 show ?case by simp
next
  case (Suc m)
  have "[0..<Suc m] = 0 # map Suc [0..<m]"
    by (simp add: upt_conv_Cons map_Suc_upt del: upt_Suc)
  then show ?case using Suc.IH by (simp add: complete_item_def del: upt_Suc)
qed

lemma advance_emissions:
  "i + m \<le> length xs \<Longrightarrow>
   emissions (trace (advance xs d p sig i m w)) =
     emissions (trace w) @ take m (drop i (map slot_value xs))"
proof (induction m arbitrary: i w)
  case 0 show ?case by simp
next
  case (Suc m)
  then have lt: "i < length xs" by simp
  have "take (Suc m) (drop i (map slot_value xs)) =
      element_at xs i # take m (drop (Suc i) (map slot_value xs))"
    using lt by (simp add: Cons_nth_drop_Suc [symmetric] element_at_def)
  with Suc show ?case by (simp add: complete_item_def emissions_append)
qed

lemma advance_progress_calls:
  "progress_calls (trace (advance xs d p sig i m w)) =
   progress_calls (trace w) @
   (if p then map (\<lambda>k. (k, length xs)) [Suc i..<Suc (i + m)] else [])"
proof (induction m arbitrary: i w)
  case 0 show ?case by simp
next
  case (Suc m)
  have "[Suc i..<Suc (i + Suc m)] = Suc i # [Suc (Suc i)..<Suc (Suc i + m)]"
    by (simp add: upt_conv_Cons del: upt_Suc)
  with Suc show ?case by (simp add: complete_item_def progress_calls_append del: upt_Suc)
qed

lemma advance_suspensions:
  "suspensions (trace (advance xs d p sig i m w)) = suspensions (trace w) @ replicate m d"
proof (induction m arbitrary: i w)
  case 0 show ?case by simp
next
  case (Suc m)
  then show ?case
    by (simp add: complete_item_def suspensions_append replicate_app_Cons_same)
qed

lemma advance_prefix: "prefix (trace w) (trace (advance xs d p sig i m w))"
proof (induction m arbitrary: i w)
  case 0 show ?case by simp
next
  case (Suc m)
  have "prefix (trace w) (trace (complete_item xs d p sig i w))"
    by (simp add: complete_item_def)
  with Suc show ?case using prefix_order.trans by fastforce
qed

subsection \<open>Runs without cancellation\<close>

lemma new_events_same [simp]: "new_events w w = []"
  by (simp add: new_events_def)

lemma new_events_append: "trace w' = trace w @ evs \<Longrightarrow> new_events w w' = evs"
  by (simp add: new_events_def)

lemma new_events_emissions:
  assumes "prefix (trace w) (trace w')" and "emissions (trace w') = emissions (trace w) @ ys"
  shows "emissions (new_events w w') = ys"
proof -
  from assms(1) obtain evs where e: "trace w' = trace w @ evs" by (auto simp: prefix_def)
  with assms(2) show ?thesis by (simp add: new_events_append emissions_append)
qed

lemma new_events_progress_calls:
  assumes "prefix (trace w) (trace w')"
    and "progress_calls (trace w') = progress_calls (trace w) @ ys"
  shows "progress_calls (new_events w w') = ys"
proof -
  from assms(1) obtain evs where e: "trace w' = trace w @ evs" by (auto simp: prefix_def)
  with assms(2) show ?thesis by (simp add: new_events_append progress_calls_append)
qed

lemma new_events_suspensions:
  assumes "prefix (trace w) (trace w')"
    and "suspensions (trace w') = suspensions (trace w) @ ys"
  shows "suspensions (new_events w w') = ys"
proof -
  from assms(1) obtain evs where e: "trace w' = trace w @ evs" by (auto simp: prefix_def)
  with assms(2) show ?thesis by (simp add: new_events_append suspensions_append)
qed

lemma quiet_no_plan: "sig = None \<or> sig = Some None \<Longrightarrow> quiet sig i d"
  by (auto simp: quiet_def abort_during_wait_def abort_after_timer_def abort_in_callback_def)

lemma no_cancellation_cases:
  "no_cancellation opts w \<longleftrightarrow>
   signal opts = None \<or> (signal opts = Some None \<and> \<not> aborted w)"
  by (simp add: no_cancellation_def split: option.splits)

lemma loop_end: "loop xs d p sig (length xs) w = (Inr (), w)"
  by (subst loop.simps) simp

lemma loop_uncancelled:
  assumes "sig = None \<or> (sig = Some None \<and> \<not> aborted w)"
  shows "loop xs d p sig 0 w = (Inr (), advance xs d p sig 0 (length xs) w)"
proof -
  have "\<not> signal_aborted sig w" using assms by (auto simp: signal_aborted_def)
  moreover have "\<forall>k<length xs. quiet sig (0 + k) d" using assms quiet_no_plan by blast
  ultimately have "loop xs d p sig 0 w =
      loop xs d p sig (0 + length xs) (advance xs d p sig 0 (length xs) w)"
    by (intro loop_advance) simp_all
  then show ?thesis by (simp add: loop_end)
qed

lemma process_uncancelled:
  assumes "passes_element_check xs" and "no_cancellation opts w"
  shows "processWithDelay (JArray xs) opts w =
    (Inr (), advance xs (delay_of opts) (onProgress opts) (signal opts) 0 (length xs) w)"
proof (cases "xs = []")
  case True
  then show ?thesis by (simp add: processWithDelay_def)
next
  case False
  with assms show ?thesis
    by (simp add: processWithDelay_def passes_element_check_def loop_uncancelled
        no_cancellation_cases)
qed

lemma process_valid:
  assumes "xs \<noteq> []" and "passes_element_check xs"
  shows "processWithDelay (JArray xs) opts w =
    loop xs (delay_of opts) (onProgress opts) (signal opts) 0 w"
  using assms by (simp add: processWithDelay_def passes_element_check_def)

lemma process_dense_uncancelled:
  assumes "all_numbers xs" and "no_cancellation opts w"
  shows "processWithDelay (dense xs) opts w =
    (Inr (),
     advance (map Some xs) (delay_of opts) (onProgress opts) (signal opts) 0 (length xs) w)"
  using process_uncancelled [of "map Some xs" opts w] assms by (simp add: dense_def)

lemma process_dense_valid:
  assumes "xs \<noteq> []" and "all_numbers xs"
  shows "processWithDelay (dense xs) opts w =
    loop (map Some xs) (delay_of opts) (onProgress opts) (signal opts) 0 w"
  using process_valid [of "map Some xs" opts w] assms by (simp add: dense_def)


lemma advance_trace:
  "trace (advance xs d p sig i m w) = trace w @
     concat (map (\<lambda>j. SetTimeout (next_timer w + j) d # Log (element_at xs (i + j)) #
                   (if p then [Progress (i + j + 1) (length xs)] else [])) [0..<m])"
proof (induction m arbitrary: i w)
  case 0 show ?case by simp
next
  case (Suc m)
  have "[0..<Suc m] = 0 # map Suc [0..<m]"
    by (simp add: upt_conv_Cons map_Suc_upt del: upt_Suc)
  then show ?case using Suc.IH [of "Suc i" "complete_item xs d p sig i w"]
    by (simp add: complete_item_def comp_def del: upt_Suc)
qed

lemma uncancelled_summary:
  assumes "no_cancellation opts w"
  shows "outcome (processWithDelay numbers opts w) =
      (if \<not> isArray numbers then Inl InvalidInputKind
       else if \<not> passes_element_check (elements numbers) then Inl InvalidElementKind else Inr ())"
    and "emissions (new_events w (final (processWithDelay numbers opts w))) =
      (if isArray numbers \<and> passes_element_check (elements numbers)
       then map slot_value (elements numbers) else [])"
    and "progress_calls (new_events w (final (processWithDelay numbers opts w))) =
      (if isArray numbers \<and> passes_element_check (elements numbers) \<and> onProgress opts
       then map (\<lambda>k. (k, length (elements numbers))) [1..<Suc (length (elements numbers))]
       else [])"
    and "suspensions (new_events w (final (processWithDelay numbers opts w))) =
      (if isArray numbers \<and> passes_element_check (elements numbers)
       then replicate (length (elements numbers)) (delay_of opts) else [])"
    and "clock (final (processWithDelay numbers opts w)) =
      clock w + (if isArray numbers \<and> passes_element_check (elements numbers)
       then length (elements numbers) * delay_of opts else 0)"
proof -
  consider "\<not> isArray numbers"
    | xs where "numbers = JArray xs" "\<not> passes_element_check xs"
    | xs where "numbers = JArray xs" "passes_element_check xs"
    by (cases numbers) auto
  then have "outcome (processWithDelay numbers opts w) =
      (if \<not> isArray numbers then Inl InvalidInputKind
       else if \<not> passes_element_check (elements numbers) then Inl InvalidElementKind else Inr ()) \<and>
    emissions (new_events w (final (processWithDelay numbers opts w))) =
      (if isArray numbers \<and> passes_element_check (elements numbers)
       then map slot_value (elements numbers) else []) \<and>
    progress_calls (new_events w (final (processWithDelay numbers opts w))) =
      (if isArray numbers \<and> passes_element_check (elements numbers) \<and> onProgress opts
       then map (\<lambda>k. (k, length (elements numbers))) [1..<Suc (length (elements numbers))]
       else []) \<and>
    suspensions (new_events w (final (processWithDelay numbers opts w))) =
      (if isArray numbers \<and> passes_element_check (elements numbers)
       then replicate (length (elements numbers)) (delay_of opts) else []) \<and>
    clock (final (processWithDelay numbers opts w)) =
      clock w + (if isArray numbers \<and> passes_element_check (elements numbers)
       then length (elements numbers) * delay_of opts else 0)"
  proof cases
    case 1
    then show ?thesis by (simp add: processWithDelay_def)
  next
    case 2
    then show ?thesis by (simp add: processWithDelay_def passes_element_check_def)
  next
    case 3
    let ?w' = "advance xs (delay_of opts) (onProgress opts) (signal opts) 0 (length xs) w"
    have r: "processWithDelay (JArray xs) opts w = (Inr (), ?w')"
      using 3(2) assms by (rule process_uncancelled)
    have "emissions (new_events w ?w') = map slot_value xs"
      by (rule new_events_emissions) (simp_all add: advance_prefix advance_emissions)
    moreover have "progress_calls (new_events w ?w') =
        (if onProgress opts then map (\<lambda>k. (k, length xs)) [1..<Suc (length xs)] else [])"
      by (rule new_events_progress_calls)
        (simp_all add: advance_prefix advance_progress_calls del: upt_Suc)
    moreover have "suspensions (new_events w ?w') = replicate (length xs) (delay_of opts)"
      by (rule new_events_suspensions) (simp_all add: advance_prefix advance_suspensions)
    moreover have "clock ?w' = clock w + length xs * delay_of opts"
      by (rule advance_clock)
    ultimately show ?thesis using 3 by (simp add: r del: upt_Suc)
  qed
  then show "outcome (processWithDelay numbers opts w) =
      (if \<not> isArray numbers then Inl InvalidInputKind
       else if \<not> passes_element_check (elements numbers) then Inl InvalidElementKind else Inr ())"
    and "emissions (new_events w (final (processWithDelay numbers opts w))) =
      (if isArray numbers \<and> passes_element_check (elements numbers)
       then map slot_value (elements numbers) else [])"
    and "progress_calls (new_events w (final (processWithDelay numbers opts w))) =
      (if isArray numbers \<and> passes_element_check (elements numbers) \<and> onProgress opts
       then map (\<lambda>k. (k, length (elements numbers))) [1..<Suc (length (elements numbers))]
       else [])"
    and "suspensions (new_events w (final (processWithDelay numbers opts w))) =
      (if isArray numbers \<and> passes_element_check (elements numbers)
       then replicate (length (elements numbers)) (delay_of opts) else [])"
    and "clock (final (processWithDelay numbers opts w)) =
      clock w + (if isArray numbers \<and> passes_element_check (elements numbers)
       then length (elements numbers) * delay_of opts else 0)"
    by blast+
qed

lemma iteration_error:
  "iteration xs d p sig i w = (Inl err, w') \<Longrightarrow> err = CancelledKind"
  by (auto simp: iteration_def await_delay_def Let_def split: if_splits option.splits)

lemma loop_error: "outcome (loop xs d p sig i w) = Inl err \<Longrightarrow> err = CancelledKind"
proof (induction xs d p sig i w rule: loop.induct)
  case (1 numbers delay onProg sig i w)
  show ?case
  proof (cases "i < length numbers")
    case False
    with "1.prems" show ?thesis by (subst (asm) loop.simps) simp
  next
    case True
    obtain r w1 where it: "iteration numbers delay onProg sig i w = (r, w1)"
      by (cases "iteration numbers delay onProg sig i w")
    show ?thesis
    proof (cases r)
      case (Inl e)
      with it True "1.prems" show ?thesis
        by (subst (asm) loop.simps) (simp add: iteration_error)
    next
      case (Inr u)
      with it True "1.prems" have "outcome (loop numbers delay onProg sig (i + 1) w1) = Inl err"
        by (subst (asm) loop.simps) simp
      with "1.IH" [OF True it [symmetric] Inr] show ?thesis by simp
    qed
  qed
qed

subsection \<open>Any run\<close>

lemma fire_abort_trace: "trace (fire_abort w) = trace w @ map ClearTimeout (listeners w)"
  by (simp add: fire_abort_def)

lemma iteration_cases:
  assumes "iteration xs d p sig i w = (r, w1)"
  shows "(r = Inl CancelledKind \<and> emissions (new_events w w1) = [] \<and>
          progress_calls (new_events w w1) = []
        \<or> r = Inr () \<and> emissions (new_events w w1) = [element_at xs i] \<and>
          progress_calls (new_events w w1) = (if p then [(i + 1, length xs)] else []))
       \<and> prefix (trace w) (trace w1)"
  using assms
  by (auto simp: iteration_def await_delay_def call_onProgress_def Let_def new_events_def
      fire_abort_trace emissions_append progress_calls_append emissions_ClearTimeout
      progress_calls_ClearTimeout
      simp del: map_append
      split: if_splits option.splits)

lemma new_events_trans:
  assumes "prefix (trace w) (trace w1)" and "prefix (trace w1) (trace w2)"
  shows "new_events w w2 = new_events w w1 @ new_events w1 w2"
proof -
  from assms obtain a b where "trace w1 = trace w @ a" and "trace w2 = trace w1 @ b"
    by (auto simp: prefix_def)
  then show ?thesis by (simp add: new_events_def)
qed

lemma loop_reports_prefix:
  assumes "i \<le> length xs" and "loop xs d p sig i w = (r, w')"
  shows "\<exists>j. i \<le> j \<and> j \<le> length xs \<and>
    emissions (new_events w w') = take (j - i) (drop i (map slot_value xs)) \<and>
    progress_calls (new_events w w') =
      (if p then map (\<lambda>k. (k, length xs)) [Suc i..<Suc j] else []) \<and>
    prefix (trace w) (trace w') \<and>
    (r = Inr () \<and> j = length xs \<or> r = Inl CancelledKind \<and> j < length xs)"
  using assms
proof (induction xs d p sig i w arbitrary: r w' rule: loop.induct)
  case (1 numbers delay onProg sig i w)
  show ?case
  proof (cases "i < length numbers")
    case False
    with "1.prems" have "i = length numbers" by simp
    with "1.prems" have "r = Inr ()" and "w' = w" by (simp_all add: loop_end)
    with \<open>i = length numbers\<close> show ?thesis by (intro exI [of _ i]) simp
  next
    case True
    obtain r1 w1 where it: "iteration numbers delay onProg sig i w = (r1, w1)"
      by (cases "iteration numbers delay onProg sig i w")
    note c = iteration_cases [OF it]
    show ?thesis
    proof (cases r1)
      case (Inl err)
      with it True "1.prems"(2) have "r = r1" and "w' = w1"
        by (simp_all add: loop.simps [of numbers delay onProg sig i w])
      with c Inl True show ?thesis by (intro exI [of _ i]) auto
    next
      case (Inr u)
      with it True "1.prems"(2) have l: "loop numbers delay onProg sig (i + 1) w1 = (r, w')"
        by (simp add: loop.simps [of numbers delay onProg sig i w])
      from True have "i + 1 \<le> length numbers" by simp
      from "1.IH" [OF True it [symmetric] Inr this l]
      obtain j where j: "i + 1 \<le> j" "j \<le> length numbers"
        and e: "emissions (new_events w1 w') =
          take (j - (i + 1)) (drop (i + 1) (map slot_value numbers))"
        and pc: "progress_calls (new_events w1 w') =
          (if onProg then map (\<lambda>k. (k, length numbers)) [Suc (i + 1)..<Suc j] else [])"
        and pre: "prefix (trace w1) (trace w')"
        and out: "r = Inr () \<and> j = length numbers \<or> r = Inl CancelledKind \<and> j < length numbers"
        by blast
      from c Inr have e1: "emissions (new_events w w1) = [element_at numbers i]"
        and pc1: "progress_calls (new_events w w1) =
          (if onProg then [(i + 1, length numbers)] else [])"
        and pre1: "prefix (trace w) (trace w1)"
        by auto
      have ne: "new_events w w' = new_events w w1 @ new_events w1 w'"
        using pre1 pre by (rule new_events_trans)
      have "take (j - i) (drop i (map slot_value numbers)) =
          element_at numbers i # take (j - (i + 1)) (drop (i + 1) (map slot_value numbers))"
      proof -
        have "j - i = Suc (j - (i + 1))" using j(1) by simp
        then show ?thesis
          using True by (simp add: Cons_nth_drop_Suc [symmetric] element_at_def)
      qed
      then have "emissions (new_events w w') = take (j - i) (drop i (map slot_value numbers))"
        by (simp add: ne emissions_append e e1)
      moreover have "[Suc i..<Suc j] = Suc i # [Suc (i + 1)..<Suc j]"
        using j(1) by (simp add: upt_conv_Cons del: upt_Suc)
      then have "progress_calls (new_events w w') =
          (if onProg then map (\<lambda>k. (k, length numbers)) [Suc i..<Suc j] else [])"
        by (simp add: ne progress_calls_append pc pc1 del: upt_Suc)
      moreover have "prefix (trace w) (trace w')"
        using pre1 pre by (rule prefix_order.trans)
      ultimately show ?thesis using j out by (intro exI [of _ j]) simp
    qed
  qed
qed

subsection \<open>Validation and the empty array\<close>

text \<open>
  C4: applied to the empty array, whatever the options and the state of the signal, the
  function completes at once: the outcome is success and the world is left as it was
  (no timer set, no time passed, nothing logged, no progress call).
\<close>

theorem empty_array_completes:
  "processWithDelay (JArray []) opts w = (Inr (), w)"
  by (simp add: processWithDelay_def)

theorem empty_array_completes_witness:
  "processWithDelay (JArray [])
     \<lparr>delayTime = Some 500, onProgress = True, signal = Some (Some (DuringWait 0 3))\<rparr>
     \<lparr>clock = 0, next_timer = 0, listeners = [], aborted = True, trace = []\<rparr>
   = (Inr (), \<lparr>clock = 0, next_timer = 0, listeners = [], aborted = True, trace = []\<rparr>)"
  using empty_array_completes
    [of "\<lparr>delayTime = Some 500, onProgress = True, signal = Some (Some (DuringWait 0 3))\<rparr>"
        "\<lparr>clock = 0, next_timer = 0, listeners = [], aborted = True, trace = []\<rparr>"]
  by simp

text \<open>
  What the two checks do refuse: a value that is not an array, and an array that holds
  an element whose type is not \<^verbatim>\<open>number\<close>. Both come first, so the world is left as it
  was: no timer was set, no time has passed, nothing was logged and the callback was not
  called.
\<close>

lemma validation_failures:
  "(\<not> isArray numbers \<longrightarrow> processWithDelay numbers opts w = (Inl InvalidInputKind, w)) \<and>
   ((\<exists>v. Some v \<in> set xs \<and> typeof v \<noteq> ''number'') \<longrightarrow>
      processWithDelay (JArray xs) opts w = (Inl InvalidElementKind, w))"
  by (auto simp: processWithDelay_def some_iff)

text \<open>
  C3: the claim is that an array with any element that is not a number is refused with
  \<open>InvalidElementKind\<close> and without effect. The comment of line 76 says the same:
  \<^verbatim>\<open>// Check if all elements are numbers\<close>. The check of line 77 does less, because
  \<^verbatim>\<open>some\<close> passes over holes. The array \<^verbatim>\<open>[1, , 3]\<close> has length 3 and reads as
  \<^verbatim>\<open>undefined\<close> at index 1, which is not a number; yet the call, here with no options in
  a fresh world, sets three timers, logs \<open>1\<close>, \<^verbatim>\<open>undefined\<close> and \<open>3\<close>, and completes.
\<close>

theorem hole_passes_element_check:
  "element_at [Some (JNumber (Finite 1)), None, Some (JNumber (Finite 3))] 1 = JUndefined \<and>
   typeof JUndefined \<noteq> ''number'' \<and>
   processWithDelay (JArray [Some (JNumber (Finite 1)), None, Some (JNumber (Finite 3))])
     no_options fresh_world =
   (Inr (),
    \<lparr>clock = 3000, next_timer = 3, listeners = [], aborted = False,
     trace = [SetTimeout 0 1000, Log (JNumber (Finite 1)),
              SetTimeout 1 1000, Log JUndefined,
              SetTimeout 2 1000, Log (JNumber (Finite 3))]\<rparr>)"
proof -
  have "passes_element_check [Some (JNumber (Finite 1)), None, Some (JNumber (Finite 3))]"
    by (simp add: passes_element_check_def some_def)
  moreover have "no_cancellation no_options fresh_world"
    by (simp add: no_cancellation_def no_options_def)
  ultimately have "processWithDelay
      (JArray [Some (JNumber (Finite 1)), None, Some (JNumber (Finite 3))])
      no_options fresh_world =
    (Inr (), advance [Some (JNumber (Finite 1)), None, Some (JNumber (Finite 3))]
      (delay_of no_options) (onProgress no_options) (signal no_options) 0
      (length [Some (JNumber (Finite 1)), None, Some (JNumber (Finite 3))]) fresh_world)"
    by (rule process_uncancelled)
  then show ?thesis
    by (simp add: complete_item_def element_at_def delay_of_def no_options_def
        fresh_world_def)
qed

text \<open>
  C10: the check for the empty array comes before the first look at the signal: with a
  signal that is already aborted at the call, the empty array still completes, and with
  no effect.
\<close>

theorem empty_array_before_cancellation:
  assumes "signal opts = Some s" and "aborted w"
  shows "processWithDelay (JArray []) opts w = (Inr (), w) \<and>
    outcome (processWithDelay (JArray []) opts w) \<noteq> Inl CancelledKind"
  by (simp add: processWithDelay_def)

theorem empty_array_before_cancellation_witness:
  "signal \<lparr>delayTime = None, onProgress = True, signal = Some None\<rparr> = Some None \<and>
   aborted (fresh_world\<lparr>aborted := True\<rparr>) \<and>
   processWithDelay (JArray []) \<lparr>delayTime = None, onProgress = True, signal = Some None\<rparr>
     (fresh_world\<lparr>aborted := True\<rparr>) = (Inr (), fresh_world\<lparr>aborted := True\<rparr>) \<and>
   outcome (processWithDelay (JArray []) \<lparr>delayTime = None, onProgress = True, signal = Some None\<rparr>
     (fresh_world\<lparr>aborted := True\<rparr>)) \<noteq> Inl CancelledKind"
  using empty_array_before_cancellation
    [of "\<lparr>delayTime = None, onProgress = True, signal = Some None\<rparr>" None
        "fresh_world\<lparr>aborted := True\<rparr>"]
  by simp

subsection \<open>Complete runs\<close>

text \<open>
  C1: for a non-empty array of numbers and no cancellation (no signal, or a signal that
  is not aborted and stays so), the call completes, logs every element once, in index
  order, and, when a callback is given, calls it once per item with
  \<open>(1, total), (2, total), \<dots>, (total, total)\<close>.
\<close>

theorem uncancelled_run_processes_every_item:
  assumes "xs \<noteq> []" and "all_numbers xs" and "no_cancellation opts w"
  shows "outcome (processWithDelay (dense xs) opts w) = Inr () \<and>
    emissions (new_events w (final (processWithDelay (dense xs) opts w))) = xs \<and>
    progress_calls (new_events w (final (processWithDelay (dense xs) opts w))) =
      (if onProgress opts then map (\<lambda>k. (k, length xs)) [1..<Suc (length xs)] else [])"
proof -
  let ?w' = "advance (map Some xs) (delay_of opts) (onProgress opts) (signal opts) 0
      (length xs) w"
  have r: "processWithDelay (dense xs) opts w = (Inr (), ?w')"
    using assms(2,3) by (rule process_dense_uncancelled)
  have pre: "prefix (trace w) (trace ?w')" by (rule advance_prefix)
  have "emissions (trace ?w') = emissions (trace w) @ xs"
    by (simp add: advance_emissions)
  with pre have e: "emissions (new_events w ?w') = xs" by (rule new_events_emissions)
  have "progress_calls (trace ?w') = progress_calls (trace w) @
      (if onProgress opts then map (\<lambda>k. (k, length xs)) [1..<Suc (length xs)] else [])"
    by (simp add: advance_progress_calls del: upt_Suc)
  with pre have p: "progress_calls (new_events w ?w') =
      (if onProgress opts then map (\<lambda>k. (k, length xs)) [1..<Suc (length xs)] else [])"
    by (rule new_events_progress_calls)
  show ?thesis using e p by (simp add: r del: upt_Suc)
qed


theorem uncancelled_run_processes_every_item_witness:
  "[JNumber (Finite 1), JNumber (Finite 2), JNumber (Finite 3)] \<noteq> [] \<and>
   all_numbers [JNumber (Finite 1), JNumber (Finite 2), JNumber (Finite 3)] \<and>
   no_cancellation \<lparr>delayTime = Some 500, onProgress = True, signal = Some None\<rparr> fresh_world \<and>
   outcome (processWithDelay (dense [JNumber (Finite 1), JNumber (Finite 2), JNumber (Finite 3)])
     \<lparr>delayTime = Some 500, onProgress = True, signal = Some None\<rparr> fresh_world) = Inr () \<and>
   emissions (new_events fresh_world (final (processWithDelay
     (dense [JNumber (Finite 1), JNumber (Finite 2), JNumber (Finite 3)])
     \<lparr>delayTime = Some 500, onProgress = True, signal = Some None\<rparr> fresh_world))) =
     [JNumber (Finite 1), JNumber (Finite 2), JNumber (Finite 3)] \<and>
   progress_calls (new_events fresh_world (final (processWithDelay
     (dense [JNumber (Finite 1), JNumber (Finite 2), JNumber (Finite 3)])
     \<lparr>delayTime = Some 500, onProgress = True, signal = Some None\<rparr> fresh_world))) =
     [(1, 3), (2, 3), (3, 3)]"
  using uncancelled_run_processes_every_item
    [of "[JNumber (Finite 1), JNumber (Finite 2), JNumber (Finite 3)]"
        "\<lparr>delayTime = Some 500, onProgress = True, signal = Some None\<rparr>" fresh_world]
  by (simp add: all_numbers_def no_cancellation_def fresh_world_def upt_conv_Cons)


subsection \<open>Cancellation during a wait\<close>

text \<open>
  C2: when the signal is aborted during the wait for the \<open>k\<close>-th item (counting from 1),
  \<open>e\<close> milliseconds after its timer was set, the call fails with \<open>CancelledKind\<close>
  having logged and reported the first \<open>k - 1\<close> items only. The wait is cut short: the
  timer set for item \<open>k\<close> is cleared, which is the last thing the call does, and the
  failure comes \<open>e\<close> milliseconds into that wait, not at its end.
\<close>

theorem cancelled_during_wait:
  assumes "all_numbers xs" and "1 \<le> k" and "k \<le> length xs"
    and "signal opts = Some (Some (DuringWait (k - 1) e))"
    and "e \<le> delay_of opts" and "\<not> aborted w"
  shows "outcome (processWithDelay (dense xs) opts w) = Inl CancelledKind \<and>
    emissions (new_events w (final (processWithDelay (dense xs) opts w))) = take (k - 1) xs \<and>
    progress_calls (new_events w (final (processWithDelay (dense xs) opts w))) =
      (if onProgress opts then map (\<lambda>j. (j, length xs)) [1..<k] else []) \<and>
    suspensions (new_events w (final (processWithDelay (dense xs) opts w))) =
      replicate k (delay_of opts) \<and>
    last (new_events w (final (processWithDelay (dense xs) opts w))) =
      ClearTimeout (next_timer w + (k - 1)) \<and>
    SetTimeout (next_timer w + (k - 1)) (delay_of opts)
      \<in> set (new_events w (final (processWithDelay (dense xs) opts w))) \<and>
    clock (final (processWithDelay (dense xs) opts w)) =
      clock w + (k - 1) * delay_of opts + e"
proof -
  define d where "d = delay_of opts"
  define p where "p = onProgress opts"
  define sig where "sig = signal opts"
  define i where "i = k - 1"
  define v where "v = advance (map Some xs) d p sig 0 i w"
  define t where "t = next_timer w + i"
  define w' where "w' = fire_abort (v\<lparr>clock := clock v + e, next_timer := Suc (next_timer v),
        listeners := listeners v @ [next_timer v],
        trace := trace v @ [SetTimeout (next_timer v) d]\<rparr>)"
  have k: "k = Suc i" and i: "i < length xs" using assms(2,3) by (simp_all add: i_def)
  have sig: "sig = Some (Some (DuringWait i e))" using assms(4) by (simp add: sig_def i_def)
  have ne: "xs \<noteq> []" using i by auto
  have na: "\<not> signal_aborted sig w" using assms(6) by (simp add: signal_aborted_def sig)
  have q: "\<forall>j<i. quiet sig (0 + j) d"
    by (simp add: sig quiet_def abort_during_wait_def abort_after_timer_def
        abort_in_callback_def)
  have "loop (map Some xs) d p sig 0 w = loop (map Some xs) d p sig (0 + i) v"
    unfolding v_def using na q i by (intro loop_advance) simp_all
  moreover have "\<not> signal_aborted sig v"
    using assms(6) by (simp add: signal_aborted_def sig v_def advance_aborted)
  moreover have "abort_during_wait sig i d = Some e"
    using assms(5) by (simp add: abort_during_wait_def sig d_def)
  ultimately have "loop (map Some xs) d p sig 0 w = (Inl CancelledKind, w')"
    using i by (subst (asm) (2) loop.simps) (simp add: iteration_during_wait w'_def)
  then have r: "processWithDelay (dense xs) opts w = (Inl CancelledKind, w')"
    using ne assms(1) by (simp add: process_dense_valid d_def p_def sig_def)
  have nt: "next_timer v = t" by (simp add: v_def t_def advance_next_timer)
  have tr: "trace w' = trace v @ SetTimeout t d # map ClearTimeout (listeners v) @ [ClearTimeout t]"
    by (simp add: w'_def fire_abort_def nt)
  obtain evs where evs: "trace v = trace w @ evs"
    using advance_prefix [of w "map Some xs" d p sig 0 i] by (auto simp: prefix_def v_def)
  have full: "trace w' = trace w @
      (evs @ SetTimeout t d # map ClearTimeout (listeners v) @ [ClearTimeout t])"
    by (simp add: tr evs)
  have nw: "new_events w w' =
      evs @ SetTimeout t d # map ClearTimeout (listeners v) @ [ClearTimeout t]"
    using full by (rule new_events_append)
  have "emissions (trace v) = emissions (trace w) @ take i xs"
    using i by (simp add: v_def advance_emissions)
  then have e: "emissions (new_events w w') = take i xs"
    by (simp add: nw evs emissions_append emissions_ClearTimeout)
  have "progress_calls (trace v) = progress_calls (trace w) @
      (if p then map (\<lambda>j. (j, length xs)) [1..<k] else [])"
    by (simp add: v_def k advance_progress_calls del: upt_Suc)
  then have pc: "progress_calls (new_events w w') =
      (if p then map (\<lambda>j. (j, length xs)) [1..<k] else [])"
    by (simp add: nw evs progress_calls_append progress_calls_ClearTimeout)
  have "suspensions (trace v) = suspensions (trace w) @ replicate i d"
    by (simp add: v_def advance_suspensions)
  then have s: "suspensions (new_events w w') = replicate k d"
    by (simp add: nw evs k suspensions_append suspensions_ClearTimeout
        replicate_append_same)
  have l: "last (new_events w w') = ClearTimeout t" by (simp add: nw)
  have m: "SetTimeout t d \<in> set (new_events w w')" by (simp add: nw)
  have c: "clock w' = clock w + i * d + e"
    by (simp add: w'_def fire_abort_def v_def advance_clock)
  show ?thesis
    using e pc s l m c unfolding r by (simp add: d_def p_def t_def i_def)
qed

text \<open>
  The sixth test of the source: five numbers, the default delay, and the signal aborted
  1200 milliseconds after the call, that is 200 milliseconds into the second wait.
\<close>

theorem cancelled_during_wait_witness:
  "all_numbers test_numbers \<and>
   (1::nat) \<le> 2 \<and> 2 \<le> length test_numbers \<and>
   signal cancelling_options = Some (Some (DuringWait (2 - 1) 200)) \<and>
   200 \<le> delay_of cancelling_options \<and>
   \<not> aborted fresh_world \<and>
   outcome (processWithDelay (dense test_numbers) cancelling_options fresh_world) =
     Inl CancelledKind \<and>
   emissions (new_events fresh_world
     (final (processWithDelay (dense test_numbers) cancelling_options fresh_world))) =
     [JNumber (Finite 1)] \<and>
   progress_calls (new_events fresh_world
     (final (processWithDelay (dense test_numbers) cancelling_options fresh_world))) =
     [(1, 5)] \<and>
   suspensions (new_events fresh_world
     (final (processWithDelay (dense test_numbers) cancelling_options fresh_world))) =
     [1000, 1000] \<and>
   last (new_events fresh_world
     (final (processWithDelay (dense test_numbers) cancelling_options fresh_world))) =
     ClearTimeout 1 \<and>
   SetTimeout 1 1000 \<in> set (new_events fresh_world
     (final (processWithDelay (dense test_numbers) cancelling_options fresh_world))) \<and>
   clock (final (processWithDelay (dense test_numbers) cancelling_options fresh_world)) =
     1200"
  using cancelled_during_wait [of test_numbers 2 cancelling_options 200 fresh_world]
  by (simp add: all_numbers_def delay_of_def fresh_world_def test_numbers_def
      cancelling_options_def numeral_2_eq_2)

subsection \<open>A signal aborted before the call\<close>

text \<open>
  C5: for a non-empty array of numbers and a signal that is already aborted at the call,
  the call fails with \<open>CancelledKind\<close> at the first check: no timer is set, no time
  passes, nothing is logged and the callback is not called.
\<close>

theorem already_cancelled_fails_at_once:
  assumes "xs \<noteq> []" and "all_numbers xs" and "signal opts = Some s" and "aborted w"
  shows "processWithDelay (dense xs) opts w = (Inl CancelledKind, w)"
proof -
  have "signal_aborted (signal opts) w" using assms(3,4) by (simp add: signal_aborted_def)
  moreover have "0 < length xs" using assms(1) by simp
  ultimately have "loop (map Some xs) (delay_of opts) (onProgress opts) (signal opts) 0 w =
      (Inl CancelledKind, w)"
    by (subst loop.simps) (simp add: iteration_aborted)
  then show ?thesis using assms(1,2) by (simp add: process_dense_valid)
qed

theorem already_cancelled_fails_at_once_witness:
  "[JNumber (Finite 1), JNumber (Finite 2), JNumber (Finite 3)] \<noteq> [] \<and>
   all_numbers [JNumber (Finite 1), JNumber (Finite 2), JNumber (Finite 3)] \<and>
   signal \<lparr>delayTime = None, onProgress = True, signal = Some None\<rparr> = Some None \<and>
   aborted (fresh_world\<lparr>aborted := True\<rparr>) \<and>
   processWithDelay (dense [JNumber (Finite 1), JNumber (Finite 2), JNumber (Finite 3)])
     \<lparr>delayTime = None, onProgress = True, signal = Some None\<rparr>
     (fresh_world\<lparr>aborted := True\<rparr>) = (Inl CancelledKind, fresh_world\<lparr>aborted := True\<rparr>)"
  using already_cancelled_fails_at_once
    [of "[JNumber (Finite 1), JNumber (Finite 2), JNumber (Finite 3)]"
        "\<lparr>delayTime = None, onProgress = True, signal = Some None\<rparr>" None
        "fresh_world\<lparr>aborted := True\<rparr>"]
  by (simp add: all_numbers_def)

subsection \<open>After a check has seen the signal aborted\<close>

text \<open>
  C6: take the run at the start of any iteration, in the world \<open>w\<close> that holds all that
  has happened so far. If a check of that iteration finds the signal aborted (the check
  before the delay, the listener during the delay, or the check after it), the rest of
  the run logs nothing and makes no progress call, and the run ends with the one
  failure \<open>CancelledKind\<close>; what was logged and reported before is still there, since
  the trace of \<open>w\<close> is a prefix of the final trace.
\<close>

theorem nothing_after_observed_cancellation:
  assumes "i < length xs" and "observes_cancellation sig d i w"
  shows "outcome (loop xs d p sig i w) = Inl CancelledKind \<and>
    emissions (new_events w (final (loop xs d p sig i w))) = [] \<and>
    progress_calls (new_events w (final (loop xs d p sig i w))) = [] \<and>
    prefix (trace w) (trace (final (loop xs d p sig i w)))"
proof (cases "signal_aborted sig w")
  case True
  then have "loop xs d p sig i w = (Inl CancelledKind, w)"
    using assms(1) by (subst loop.simps) (simp add: iteration_aborted)
  then show ?thesis by simp
next
  case False
  define t where "t = next_timer w"
  have "\<exists>c. loop xs d p sig i w =
      (Inl CancelledKind,
       fire_abort (w\<lparr>clock := c, next_timer := Suc t, listeners := listeners w @ [t],
         trace := trace w @ [SetTimeout t d]\<rparr>))"
  proof (cases "abort_during_wait sig i d")
    case None
    with assms(2) False have "abort_after_timer sig i"
      by (simp add: observes_cancellation_def)
    with False None assms(1) show ?thesis
      by (subst loop.simps) (auto simp: iteration_after_timer t_def)
  next
    case (Some e)
    with False assms(1) show ?thesis
      by (subst loop.simps) (auto simp: iteration_during_wait t_def)
  qed
  then obtain c where r: "loop xs d p sig i w =
      (Inl CancelledKind,
       fire_abort (w\<lparr>clock := c, next_timer := Suc t, listeners := listeners w @ [t],
         trace := trace w @ [SetTimeout t d]\<rparr>))" ..
  let ?w' = "fire_abort (w\<lparr>clock := c, next_timer := Suc t, listeners := listeners w @ [t],
         trace := trace w @ [SetTimeout t d]\<rparr>)"
  have tr: "trace ?w' = trace w @ (SetTimeout t d # map ClearTimeout (listeners w @ [t]))"
    by (simp add: fire_abort_def)
  then have nw: "new_events w ?w' = SetTimeout t d # map ClearTimeout (listeners w @ [t])"
    by (rule new_events_append)
  have "emissions (new_events w ?w') = []"
    unfolding nw by (simp add: emissions_ClearTimeout del: map_append)
  moreover have "progress_calls (new_events w ?w') = []"
    unfolding nw by (simp add: progress_calls_ClearTimeout del: map_append)
  moreover have "prefix (trace w) (trace ?w')"
    unfolding tr by simp
  ultimately show ?thesis unfolding r by simp
qed

theorem nothing_after_observed_cancellation_witness:
  "(1::nat) < length
     [Some (JNumber (Finite 1)), Some (JNumber (Finite 2)), Some (JNumber (Finite 3))] \<and>
   observes_cancellation (Some (Some (AfterTimer 1))) 500 1
     \<lparr>clock = 500, next_timer = 1, listeners = [0], aborted = False,
      trace = [SetTimeout 0 500, Log (JNumber (Finite 1)), Progress 1 3]\<rparr> \<and>
   outcome (loop
       [Some (JNumber (Finite 1)), Some (JNumber (Finite 2)), Some (JNumber (Finite 3))]
       500 True
     (Some (Some (AfterTimer 1))) 1
     \<lparr>clock = 500, next_timer = 1, listeners = [0], aborted = False,
      trace = [SetTimeout 0 500, Log (JNumber (Finite 1)), Progress 1 3]\<rparr>) = Inl CancelledKind \<and>
   emissions (new_events
     \<lparr>clock = 500, next_timer = 1, listeners = [0], aborted = False,
      trace = [SetTimeout 0 500, Log (JNumber (Finite 1)), Progress 1 3]\<rparr>
     (final (loop
       [Some (JNumber (Finite 1)), Some (JNumber (Finite 2)), Some (JNumber (Finite 3))]
       500 True
       (Some (Some (AfterTimer 1))) 1
       \<lparr>clock = 500, next_timer = 1, listeners = [0], aborted = False,
        trace = [SetTimeout 0 500, Log (JNumber (Finite 1)), Progress 1 3]\<rparr>))) = [] \<and>
   progress_calls (new_events
     \<lparr>clock = 500, next_timer = 1, listeners = [0], aborted = False,
      trace = [SetTimeout 0 500, Log (JNumber (Finite 1)), Progress 1 3]\<rparr>
     (final (loop
       [Some (JNumber (Finite 1)), Some (JNumber (Finite 2)), Some (JNumber (Finite 3))]
       500 True
       (Some (Some (AfterTimer 1))) 1
       \<lparr>clock = 500, next_timer = 1, listeners = [0], aborted = False,
        trace = [SetTimeout 0 500, Log (JNumber (Finite 1)), Progress 1 3]\<rparr>))) = [] \<and>
   prefix [SetTimeout 0 500, Log (JNumber (Finite 1)), Progress 1 3]
     (trace (final (loop
       [Some (JNumber (Finite 1)), Some (JNumber (Finite 2)), Some (JNumber (Finite 3))]
       500 True
       (Some (Some (AfterTimer 1))) 1
       \<lparr>clock = 500, next_timer = 1, listeners = [0], aborted = False,
        trace = [SetTimeout 0 500, Log (JNumber (Finite 1)), Progress 1 3]\<rparr>)))"
  using nothing_after_observed_cancellation
    [of 1 "[Some (JNumber (Finite 1)), Some (JNumber (Finite 2)), Some (JNumber (Finite 3))]"
        "Some (Some (AfterTimer 1))" 500
        "\<lparr>clock = 500, next_timer = 1, listeners = [0], aborted = False,
          trace = [SetTimeout 0 500, Log (JNumber (Finite 1)), Progress 1 3]\<rparr>" True]
  by (simp add: observes_cancellation_def abort_after_timer_def)

text \<open>
  Seen from the whole call: a call that fails with \<open>CancelledKind\<close> has logged and
  reported the items before the one at which it stopped, and nothing else.
\<close>

lemma cancelled_run_reports_prefix:
  assumes "outcome (processWithDelay (JArray xs) opts w) = Inl CancelledKind"
  shows "\<exists>j<length xs.
    emissions (new_events w (final (processWithDelay (JArray xs) opts w))) =
      take j (map slot_value xs) \<and>
    progress_calls (new_events w (final (processWithDelay (JArray xs) opts w))) =
      (if onProgress opts then map (\<lambda>k. (k, length xs)) [1..<Suc j] else [])"
proof -
  have v: "xs \<noteq> []" "passes_element_check xs"
    using assms
    by (auto simp: processWithDelay_def passes_element_check_def split: if_splits)
  obtain r w' where l: "loop xs (delay_of opts) (onProgress opts) (signal opts) 0 w = (r, w')"
    by (cases "loop xs (delay_of opts) (onProgress opts) (signal opts) 0 w")
  with v assms have r: "r = Inl CancelledKind" by (simp add: process_valid)
  from loop_reports_prefix [OF _ l] r show ?thesis
    using v l by (auto simp: process_valid simp del: upt_Suc)
qed

subsection \<open>The delay\<close>

text \<open>
  C7: in a run that is not cancelled, each item is preceded by its own timer of
  \<open>delayTime\<close> milliseconds, the first item included: the run sets as many timers as
  there are items, all with the same delay, and lasts that many delays. The delay is
  1000 when the options give none.
\<close>

theorem delay_before_every_item:
  assumes "all_numbers xs" and "no_cancellation opts w"
  shows "new_events w (final (processWithDelay (dense xs) opts w)) =
      concat (map (\<lambda>i. SetTimeout (next_timer w + i) (delay_of opts) # Log (xs ! i) #
                (if onProgress opts then [Progress (i + 1) (length xs)] else []))
              [0..<length xs]) \<and>
    suspensions (new_events w (final (processWithDelay (dense xs) opts w))) =
      replicate (length xs) (delay_of opts) \<and>
    clock (final (processWithDelay (dense xs) opts w)) = clock w + length xs * delay_of opts \<and>
    delay_of (opts\<lparr>delayTime := None\<rparr>) = 1000 \<and>
    delay_of (opts\<lparr>delayTime := Some t\<rparr>) = t"
proof -
  let ?w' = "advance (map Some xs) (delay_of opts) (onProgress opts) (signal opts) 0
      (length xs) w"
  have r: "processWithDelay (dense xs) opts w = (Inr (), ?w')"
    using assms by (rule process_dense_uncancelled)
  have "new_events w ?w' =
      concat (map (\<lambda>i. SetTimeout (next_timer w + i) (delay_of opts) # Log (xs ! i) #
                (if onProgress opts then [Progress (i + 1) (length xs)] else []))
              [0..<length xs])"
  proof (rule new_events_append)
    have "map (\<lambda>j. SetTimeout (next_timer w + j) (delay_of opts) #
              Log (element_at (map Some xs) (0 + j)) #
              (if onProgress opts then [Progress (0 + j + 1) (length (map Some xs))] else []))
            [0..<length xs] =
          map (\<lambda>i. SetTimeout (next_timer w + i) (delay_of opts) # Log (xs ! i) #
              (if onProgress opts then [Progress (i + 1) (length xs)] else []))
            [0..<length xs]"
      by (rule map_cong) (simp_all add: element_at_dense)
    then show "trace ?w' = trace w @
        concat (map (\<lambda>i. SetTimeout (next_timer w + i) (delay_of opts) # Log (xs ! i) #
                  (if onProgress opts then [Progress (i + 1) (length xs)] else []))
                [0..<length xs])"
      by (simp only: advance_trace)
  qed
  moreover have "suspensions (new_events w ?w') = replicate (length xs) (delay_of opts)"
    by (rule new_events_suspensions) (simp_all add: advance_prefix advance_suspensions)
  moreover have "clock ?w' = clock w + length xs * delay_of opts"
    by (rule advance_clock)
  ultimately show ?thesis unfolding r by (simp add: delay_of_def)
qed

theorem delay_before_every_item_witness:
  "all_numbers [JNumber (Finite 1), JNumber (Finite 2)] \<and>
   no_cancellation no_options fresh_world \<and>
   new_events fresh_world (final (processWithDelay
     (dense [JNumber (Finite 1), JNumber (Finite 2)]) no_options fresh_world)) =
     [SetTimeout 0 1000, Log (JNumber (Finite 1)), SetTimeout 1 1000, Log (JNumber (Finite 2))] \<and>
   suspensions (new_events fresh_world (final (processWithDelay
     (dense [JNumber (Finite 1), JNumber (Finite 2)]) no_options fresh_world))) = [1000, 1000] \<and>
   clock (final (processWithDelay
     (dense [JNumber (Finite 1), JNumber (Finite 2)]) no_options fresh_world)) = 2000 \<and>
   delay_of (no_options\<lparr>delayTime := None\<rparr>) = 1000 \<and>
   delay_of (no_options\<lparr>delayTime := Some 500\<rparr>) = 500"
  using delay_before_every_item
    [of "[JNumber (Finite 1), JNumber (Finite 2)]" no_options fresh_world 500]
  by (simp add: all_numbers_def no_cancellation_def no_options_def fresh_world_def
      delay_of_def upt_conv_Cons numeral_2_eq_2)

subsection \<open>Determinism\<close>

text \<open>
  C8: two calls with the same array, delay and callback, neither of them cancelled, have
  the same outcome, log the same values, make the same progress calls and set the same
  delays, whatever the worlds they start in (the time of the call, what earlier calls
  left on the console, the timers and listeners they left behind) and whether a signal
  that is never aborted is passed or none at all.
\<close>

theorem runs_are_reproducible:
  assumes "no_cancellation opts1 w1" and "no_cancellation opts2 w2"
    and "delayTime opts1 = delayTime opts2" and "onProgress opts1 = onProgress opts2"
  shows "outcome (processWithDelay numbers opts1 w1) = outcome (processWithDelay numbers opts2 w2) \<and>
    emissions (new_events w1 (final (processWithDelay numbers opts1 w1))) =
      emissions (new_events w2 (final (processWithDelay numbers opts2 w2))) \<and>
    progress_calls (new_events w1 (final (processWithDelay numbers opts1 w1))) =
      progress_calls (new_events w2 (final (processWithDelay numbers opts2 w2))) \<and>
    suspensions (new_events w1 (final (processWithDelay numbers opts1 w1))) =
      suspensions (new_events w2 (final (processWithDelay numbers opts2 w2))) \<and>
    clock (final (processWithDelay numbers opts1 w1)) - clock w1 =
      clock (final (processWithDelay numbers opts2 w2)) - clock w2"
proof -
  have "delay_of opts1 = delay_of opts2" using assms(3) by (simp add: delay_of_def)
  then show ?thesis
    using assms(4) by (simp add: uncancelled_summary [OF assms(1)] uncancelled_summary [OF assms(2)]
      del: upt_Suc)
qed

theorem runs_are_reproducible_witness:
  "no_cancellation \<lparr>delayTime = Some 10, onProgress = True, signal = None\<rparr> fresh_world \<and>
   no_cancellation \<lparr>delayTime = Some 10, onProgress = True, signal = Some None\<rparr>
     \<lparr>clock = 10, next_timer = 1, listeners = [], aborted = False,
      trace = [SetTimeout 0 10, Log (JNumber (Finite 7)), Progress 1 1]\<rparr> \<and>
   outcome (processWithDelay (dense [JNumber (Finite 7)])
       \<lparr>delayTime = Some 10, onProgress = True, signal = None\<rparr> fresh_world) =
     outcome (processWithDelay (dense [JNumber (Finite 7)])
       \<lparr>delayTime = Some 10, onProgress = True, signal = Some None\<rparr>
       \<lparr>clock = 10, next_timer = 1, listeners = [], aborted = False,
        trace = [SetTimeout 0 10, Log (JNumber (Finite 7)), Progress 1 1]\<rparr>) \<and>
   emissions (new_events fresh_world (final (processWithDelay (dense [JNumber (Finite 7)])
       \<lparr>delayTime = Some 10, onProgress = True, signal = None\<rparr> fresh_world))) =
     emissions (new_events
       \<lparr>clock = 10, next_timer = 1, listeners = [], aborted = False,
        trace = [SetTimeout 0 10, Log (JNumber (Finite 7)), Progress 1 1]\<rparr>
       (final (processWithDelay (dense [JNumber (Finite 7)])
         \<lparr>delayTime = Some 10, onProgress = True, signal = Some None\<rparr>
         \<lparr>clock = 10, next_timer = 1, listeners = [], aborted = False,
          trace = [SetTimeout 0 10, Log (JNumber (Finite 7)), Progress 1 1]\<rparr>))) \<and>
   progress_calls (new_events fresh_world (final (processWithDelay (dense [JNumber (Finite 7)])
       \<lparr>delayTime = Some 10, onProgress = True, signal = None\<rparr> fresh_world))) =
     progress_calls (new_events
       \<lparr>clock = 10, next_timer = 1, listeners = [], aborted = False,
        trace = [SetTimeout 0 10, Log (JNumber (Finite 7)), Progress 1 1]\<rparr>
       (final (processWithDelay (dense [JNumber (Finite 7)])
         \<lparr>delayTime = Some 10, onProgress = True, signal = Some None\<rparr>
         \<lparr>clock = 10, next_timer = 1, listeners = [], aborted = False,
          trace = [SetTimeout 0 10, Log (JNumber (Finite 7)), Progress 1 1]\<rparr>)))"
  using runs_are_reproducible
    [of "\<lparr>delayTime = Some 10, onProgress = True, signal = None\<rparr>" fresh_world
        "\<lparr>delayTime = Some 10, onProgress = True, signal = Some None\<rparr>"
        "\<lparr>clock = 10, next_timer = 1, listeners = [], aborted = False,
          trace = [SetTimeout 0 10, Log (JNumber (Finite 7)), Progress 1 1]\<rparr>"
        "dense [JNumber (Finite 7)]"]
  by (simp add: no_cancellation_def fresh_world_def)

subsection \<open>What counts as a number\<close>

text \<open>
  C9: the element check asks for the type \<^verbatim>\<open>number\<close> only. An array, with or without
  holes, is refused with \<open>InvalidElementKind\<close> exactly when one of the elements it holds
  is not a number value; \<open>NaN\<close> and the two infinities are number values. For instance
  the array \<^verbatim>\<open>[NaN]\<close> with a delay of 0 completes, having logged \<open>NaN\<close>.
\<close>

theorem every_number_is_accepted:
  "(outcome (processWithDelay (JArray xs) opts w) = Inl InvalidElementKind
      \<longleftrightarrow> (\<exists>slot\<in>set xs. \<exists>v. slot = Some v \<and> (\<forall>n. v \<noteq> JNumber n))) \<and>
   processWithDelay (dense [JNumber NaN])
     \<lparr>delayTime = Some 0, onProgress = False, signal = None\<rparr> w =
   (Inr (), w\<lparr>next_timer := Suc (next_timer w),
               trace := trace w @ [SetTimeout (next_timer w) 0, Log (JNumber NaN)]\<rparr>)"
proof
  have iff: "passes_element_check xs \<longleftrightarrow>
      \<not> (\<exists>slot\<in>set xs. \<exists>v. slot = Some v \<and> (\<forall>n. v \<noteq> JNumber n))"
    by (auto simp: passes_element_check_def some_iff typeof_number_iff)
  show "outcome (processWithDelay (JArray xs) opts w) = Inl InvalidElementKind
      \<longleftrightarrow> (\<exists>slot\<in>set xs. \<exists>v. slot = Some v \<and> (\<forall>n. v \<noteq> JNumber n))"
  proof (cases "passes_element_check xs")
    case True
    have "outcome (processWithDelay (JArray xs) opts w) \<noteq> Inl InvalidElementKind"
    proof (cases "xs = []")
      case True
      then show ?thesis by (simp add: processWithDelay_def)
    next
      case False
      with \<open>passes_element_check xs\<close> show ?thesis
        using loop_error [of xs "delay_of opts" "onProgress opts" "signal opts" 0 w
            InvalidElementKind]
        by (auto simp: process_valid)
    qed
    with True iff show ?thesis by simp
  next
    case False
    then have "outcome (processWithDelay (JArray xs) opts w) = Inl InvalidElementKind"
      by (simp add: processWithDelay_def passes_element_check_def)
    with False iff show ?thesis by simp
  qed
next
  have "all_numbers [JNumber NaN]" by (simp add: all_numbers_def)
  moreover have "no_cancellation \<lparr>delayTime = Some 0, onProgress = False, signal = None\<rparr> w"
    by (simp add: no_cancellation_def)
  ultimately show "processWithDelay (dense [JNumber NaN])
     \<lparr>delayTime = Some 0, onProgress = False, signal = None\<rparr> w =
   (Inr (), w\<lparr>next_timer := Suc (next_timer w),
               trace := trace w @ [SetTimeout (next_timer w) 0, Log (JNumber NaN)]\<rparr>)"
    by (simp add: process_dense_uncancelled complete_item_def delay_of_def element_at_def)
qed

theorem every_number_is_accepted_witness:
  "\<not> (\<exists>slot\<in>set [Some (JNumber NaN), Some (JNumber PosInfinity), Some (JNumber NegInfinity)].
        \<exists>v. slot = Some v \<and> (\<forall>n. v \<noteq> JNumber n)) \<and>
   outcome (processWithDelay
     (JArray [Some (JNumber NaN), Some (JNumber PosInfinity), Some (JNumber NegInfinity)])
     no_options fresh_world) \<noteq> Inl InvalidElementKind \<and>
   (\<exists>slot\<in>set [Some (JNumber NaN), Some (JString ''NaN'')].
        \<exists>v. slot = Some v \<and> (\<forall>n. v \<noteq> JNumber n)) \<and>
   outcome (processWithDelay (JArray [Some (JNumber NaN), Some (JString ''NaN'')])
     no_options fresh_world) = Inl InvalidElementKind \<and>
   processWithDelay (dense [JNumber NaN])
     \<lparr>delayTime = Some 0, onProgress = False, signal = None\<rparr> fresh_world =
   (Inr (), \<lparr>clock = 0, next_timer = 1, listeners = [], aborted = False,
             trace = [SetTimeout 0 0, Log (JNumber NaN)]\<rparr>)"
  using every_number_is_accepted
      [of "[Some (JNumber NaN), Some (JNumber PosInfinity), Some (JNumber NegInfinity)]"
          no_options fresh_world]
    every_number_is_accepted
      [of "[Some (JNumber NaN), Some (JString ''NaN'')]" no_options fresh_world]
  by (simp add: fresh_world_def)

end
